theory Spec2Isabelle
  imports Complex_Main
begin

section \<open>Sonification mapping engine of \<^verbatim>\<open>src/app/app.py\<close>\<close>

text \<open>
  The development embeds three pieces of \<^verbatim>\<open>app.py\<close>: the scale quantizer
  \<^verbatim>\<open>freqMap\<close> (lines 206-215), the run encoder \<^verbatim>\<open>make_track\<close> (lines 217-224)
  and the note loop of \<^verbatim>\<open>generate_midi\<close> (lines 650-664).  Python exceptions are
  values of \<open>py_error\<close>; a function that can raise returns \<open>py_error + 'a\<close>.
  Numbers are binary64 floating-point values with their rounding, as numpy and
  Python compute them.
\<close>

datatype py_error = ValueError | IndexError

subsection \<open>Floating-point values\<close>

text \<open>
  A \<^verbatim>\<open>float64\<close> is a finite number, one of the two infinities or NaN.  A finite
  value is the real number it denotes; the two zeros are not told apart (they
  compare equal and nothing here divides by zero).  pandas uses NaN for a missing
  sample.
\<close>

datatype npfloat = NaN | NInf | Fin real | PInf

text \<open>Rounding a real to the nearest integer, ties to the even one.\<close>

definition rne :: "real \<Rightarrow> int" where
  "rne q = (let f = \<lfloor>q\<rfloor>; r = q - of_int f
            in if r < 1 / 2 then f
               else if 1 / 2 < r then f + 1
               else if even f then f else f + 1)"

text \<open>
  The binary exponent of a positive \<open>x\<close> (the floor of its logarithm to base 2), by halving or doubling; the
  first argument bounds the number of steps.
\<close>

fun ilog2 :: "nat \<Rightarrow> real \<Rightarrow> int" where
  "ilog2 0 x = 0"
| "ilog2 (Suc n) x =
     (if 2 \<le> x then ilog2 n (x / 2) + 1
      else if x < 1 then ilog2 n (2 * x) - 1
      else 0)"

definition pow2 :: "int \<Rightarrow> real" where
  "pow2 e = (if 0 \<le> e then 2 ^ nat e else 1 / 2 ^ nat (- e))"

text \<open>
  Rounding to binary64, to nearest with ties to even: 53 significant bits, and
  the fixed spacing of the subnormal numbers below the exponent -1022.  2200 steps
  reach the exponent of every sum, product and quotient of two finite values.
\<close>

definition rd :: "real \<Rightarrow> real" where
  "rd x = (if x = 0 then 0
           else let e = max (ilog2 2200 \<bar>x\<bar>) (- 1022);
                    u = pow2 (e - 52)
                in of_int (rne (x / u)) * u)"

definition max_double :: real where
  "max_double = (2 ^ 53 - 1) * 2 ^ 971"

text \<open>The result of an operation whose exact value is \<open>x\<close>: rounded, or an infinity on overflow.\<close>

definition to_float :: "real \<Rightarrow> npfloat" where
  "to_float x = (let r = rd x
                 in if max_double < r then PInf
                    else if r < - max_double then NInf
                    else Fin r)"

text \<open>A real number that is a binary64 value.\<close>

definition is_double :: "real \<Rightarrow> bool" where
  "is_double x \<longleftrightarrow> to_float x = Fin x"

text \<open>The comparison \<^verbatim>\<open><\<close>: false as soon as one side is NaN.\<close>

fun flt :: "npfloat \<Rightarrow> npfloat \<Rightarrow> bool" where
  "flt (Fin a) (Fin b) = (a < b)"
| "flt NInf (Fin b) = True"
| "flt NInf PInf = True"
| "flt (Fin a) PInf = True"
| "flt _ _ = False"

text \<open>The comparison \<^verbatim>\<open>==\<close>: NaN is equal to nothing.\<close>

fun feq :: "npfloat \<Rightarrow> npfloat \<Rightarrow> bool" where
  "feq NaN _ = False"
| "feq _ NaN = False"
| "feq a b = (a = b)"

fun fneg :: "npfloat \<Rightarrow> npfloat" where
  "fneg NaN = NaN"
| "fneg NInf = PInf"
| "fneg (Fin a) = Fin (- a)"
| "fneg PInf = NInf"

fun fadd :: "npfloat \<Rightarrow> npfloat \<Rightarrow> npfloat" where
  "fadd NaN _ = NaN"
| "fadd _ NaN = NaN"
| "fadd (Fin a) (Fin b) = to_float (a + b)"
| "fadd PInf NInf = NaN"
| "fadd NInf PInf = NaN"
| "fadd PInf _ = PInf"
| "fadd _ PInf = PInf"
| "fadd NInf _ = NInf"
| "fadd _ NInf = NInf"

definition fsub :: "npfloat \<Rightarrow> npfloat \<Rightarrow> npfloat" where
  "fsub a b = fadd a (fneg b)"

text \<open>The product: zero times an infinity is NaN.\<close>

fun fmul :: "npfloat \<Rightarrow> npfloat \<Rightarrow> npfloat" where
  "fmul NaN _ = NaN"
| "fmul _ NaN = NaN"
| "fmul (Fin a) (Fin b) = to_float (a * b)"
| "fmul (Fin a) PInf = (if a = 0 then NaN else if 0 < a then PInf else NInf)"
| "fmul (Fin a) NInf = (if a = 0 then NaN else if 0 < a then NInf else PInf)"
| "fmul PInf (Fin b) = (if b = 0 then NaN else if 0 < b then PInf else NInf)"
| "fmul NInf (Fin b) = (if b = 0 then NaN else if 0 < b then NInf else PInf)"
| "fmul PInf PInf = PInf"
| "fmul NInf NInf = PInf"
| "fmul PInf NInf = NInf"
| "fmul NInf PInf = NInf"

text \<open>
  The quotient by a positive whole number, the only divisor \<^verbatim>\<open>linspace\<close> uses
  (it divides by \<^verbatim>\<open>div\<close> under the guard \<^verbatim>\<open>div > 0\<close>).
\<close>

fun fdiv :: "npfloat \<Rightarrow> real \<Rightarrow> npfloat" where
  "fdiv (Fin a) d = to_float (a / d)"
| "fdiv x d = x"

text \<open>
  \<^verbatim>\<open>np.log\<close> raises nothing: the logarithm of zero is \<open>-inf\<close> and that of a
  negative number is NaN (numpy only emits a warning).  On a positive argument the
  result is what the library's logarithm returns there; numpy does not promise a
  correctly rounded value, so that function is the parameter \<open>lg\<close>.
\<close>

fun np_log :: "(real \<Rightarrow> real) \<Rightarrow> npfloat \<Rightarrow> npfloat" where
  "np_log lg (Fin x) = (if 0 < x then Fin (lg x) else if x = 0 then NInf else NaN)"
| "np_log lg PInf = PInf"
| "np_log lg NInf = NaN"
| "np_log lg NaN = NaN"

text \<open>The correctly rounded logarithm, one such library function.\<close>

definition log_rn :: "real \<Rightarrow> real" where
  "log_rn x = rd (ln x)"

subsection \<open>The library calls of \<^verbatim>\<open>freqMap\<close>\<close>

text \<open>
  \<^verbatim>\<open>data.min()\<close> and \<^verbatim>\<open>data.max()\<close> of a pandas Series skip NaN and return NaN
  when nothing is left.
\<close>

definition series_min :: "npfloat list \<Rightarrow> npfloat" where
  "series_min data =
     (case filter (\<lambda>v. v \<noteq> NaN) data of
        [] \<Rightarrow> NaN
      | v # vs \<Rightarrow> foldl (\<lambda>m w. if flt w m then w else m) v vs)"

definition series_max :: "npfloat list \<Rightarrow> npfloat" where
  "series_max data =
     (case filter (\<lambda>v. v \<noteq> NaN) data of
        [] \<Rightarrow> NaN
      | v # vs \<Rightarrow> foldl (\<lambda>m w. if flt m w then w else m) v vs)"

text \<open>
  \<^verbatim>\<open>np.linspace(start, stop, num)\<close> with the default \<^verbatim>\<open>endpoint=True\<close>: a negative
  \<^verbatim>\<open>num\<close> raises ValueError; otherwise \<^verbatim>\<open>arange(0, num)\<close> is scaled by
  \<^verbatim>\<open>step = delta / div\<close> (by \<^verbatim>\<open>delta\<close> alone when \<^verbatim>\<open>div\<close> is not positive, and by
  \<^verbatim>\<open>y / div * delta\<close> when the step is zero), shifted by \<^verbatim>\<open>start\<close>, and for
  \<^verbatim>\<open>num > 1\<close> the last element is overwritten with \<^verbatim>\<open>stop\<close>.  Every operation
  rounds.  The elements of \<^verbatim>\<open>arange\<close> are whole numbers below the length of an
  array and therefore exact.
\<close>

definition linspace :: "npfloat \<Rightarrow> npfloat \<Rightarrow> int \<Rightarrow> py_error + npfloat list" where
  "linspace start stop num =
     (if num < 0 then Inl ValueError
      else
        let divisor = num - 1;
            delta = fsub stop start;
            y = map (\<lambda>k. Fin (real k)) [0..<nat num];
            y1 = (if 0 < divisor then
                    (let step = fdiv delta (real_of_int divisor)
                     in if feq step (Fin 0)
                        then map (\<lambda>v. fmul (fdiv v (real_of_int divisor)) delta) y
                        else map (\<lambda>v. fmul v step) y)
                  else map (\<lambda>v. fmul v delta) y);
            y2 = map (\<lambda>v. fadd v start) y1
        in Inr (if 1 < num then y2[nat num - 1 := stop] else y2))"

fun adjacent_all :: "('a \<Rightarrow> 'a \<Rightarrow> bool) \<Rightarrow> 'a list \<Rightarrow> bool" where
  "adjacent_all P (u # v # vs) = (P u v \<and> adjacent_all P (v # vs))"
| "adjacent_all P _ = True"

text \<open>
  The monotonicity test of \<^verbatim>\<open>np.digitize\<close>: 1 for non-decreasing bins (also for
  empty or constant bins), -1 for non-increasing bins, 0 otherwise.  It skips the
  leading elements equal to the first one and lets the first differing pair choose
  the direction.
\<close>

definition check_array_monotonic :: "npfloat list \<Rightarrow> int" where
  "check_array_monotonic a =
     (case a of
        [] \<Rightarrow> 1
      | a0 # as \<Rightarrow>
          (case dropWhile (\<lambda>v. feq v a0) as of
             [] \<Rightarrow> 1
           | a1 # rest \<Rightarrow>
               if flt a0 a1
               then (if adjacent_all (\<lambda>l n. \<not> flt n l) (a1 # rest) then 1 else 0)
               else (if adjacent_all (\<lambda>l n. \<not> flt l n) (a1 # rest) then - 1 else 0)))"

text \<open>numpy's sort order of floats: the IEEE order with NaN after everything.\<close>

definition np_lt :: "npfloat \<Rightarrow> npfloat \<Rightarrow> bool" where
  "np_lt a b \<longleftrightarrow> flt a b \<or> (b = NaN \<and> a \<noteq> NaN)"

text \<open>
  \<^verbatim>\<open>np.searchsorted(a, v, side='right')\<close> on an array sorted in that order: the
  insertion index after the elements not greater than \<open>v\<close>, that is their number.
\<close>

definition searchsorted_right :: "npfloat list \<Rightarrow> npfloat \<Rightarrow> nat" where
  "searchsorted_right a v = length (filter (\<lambda>b. \<not> np_lt v b) a)"

text \<open>
  \<^verbatim>\<open>np.digitize(x, bins)\<close> with the default \<^verbatim>\<open>right=False\<close>: ValueError for bins
  that are not monotonic, a search from the right otherwise, on the reversed bins
  when they decrease.  The count never exceeds the number of bins, so the
  subtraction does not truncate.
\<close>

definition digitize :: "npfloat list \<Rightarrow> npfloat list \<Rightarrow> py_error + nat list" where
  "digitize x bins =
     (let mono = check_array_monotonic bins
      in if mono = 0 then Inl ValueError
         else if mono = - 1
         then Inr (map (\<lambda>v. length bins - searchsorted_right (rev bins) v) x)
         else Inr (map (searchsorted_right bins) x))"

subsection \<open>The quantizer \<^verbatim>\<open>freqMap\<close>\<close>

text \<open>
  The local \<^verbatim>\<open>digitized\<close> of \<^verbatim>\<open>freqMap\<close>; \<open>n\<close> is \<^verbatim>\<open>len(freq)\<close>.  The parameter
  \<^verbatim>\<open>log\<close> is called \<open>use_log\<close> here.
\<close>

definition freqMap_digitized ::
  "(real \<Rightarrow> real) \<Rightarrow> npfloat list \<Rightarrow> nat \<Rightarrow> bool \<Rightarrow> py_error + nat list" where
  "freqMap_digitized lg data n use_log =
     (if use_log then
        (case linspace (np_log lg (series_min data)) (np_log lg (series_max data)) (int n - 1) of
           Inl e \<Rightarrow> Inl e
         | Inr bins \<Rightarrow> digitize (map (np_log lg) data) bins)
      else
        (case linspace (series_min data) (series_max data) (int n - 1) of
           Inl e \<Rightarrow> Inl e
         | Inr bins \<Rightarrow> digitize data bins))"

text \<open>
  The comprehension \<^verbatim>\<open>[freq[i] for i in digitized]\<close>: an index past the end of the
  list raises IndexError (the indices are never negative).
\<close>

fun lookup :: "'p list \<Rightarrow> nat list \<Rightarrow> py_error + 'p list" where
  "lookup freq [] = Inr []"
| "lookup freq (i # is) =
     (if i < length freq
      then (case lookup freq is of Inl e \<Rightarrow> Inl e | Inr f \<Rightarrow> Inr (freq ! i # f))
      else Inl IndexError)"

text \<open>
  \<^verbatim>\<open>freqMap(data, freq, log=True, inv=False, offset=0)\<close>, with the library
  logarithm \<open>lg\<close> in front.  The body never reads \<^verbatim>\<open>inv\<close> (here \<open>invert\<close>) or
  \<^verbatim>\<open>offset\<close>.
\<close>

definition freqMap ::
  "(real \<Rightarrow> real) \<Rightarrow> npfloat list \<Rightarrow> 'p list \<Rightarrow> bool \<Rightarrow> bool \<Rightarrow> int \<Rightarrow> py_error + 'p list" where
  "freqMap lg data freq use_log invert offset =
     (case freqMap_digitized lg data (length freq) use_log of
        Inl e \<Rightarrow> Inl e
      | Inr digitized \<Rightarrow> lookup freq digitized)"

text \<open>
  The call site in \<^verbatim>\<open>generate_midi\<close> (lines 615-624): an inverted voice reverses
  its scale before it calls \<^verbatim>\<open>freqMap\<close> with the default arguments.
\<close>

definition voice_fm ::
  "(real \<Rightarrow> real) \<Rightarrow> npfloat list \<Rightarrow> 'p list \<Rightarrow> bool \<Rightarrow> py_error + 'p list" where
  "voice_fm lg data freq voice_inv =
     freqMap lg data (if voice_inv then rev freq else freq) True False 0"

subsection \<open>The run encoder \<^verbatim>\<open>make_track\<close>\<close>

text \<open>
  One pass of the loop body.  \<open>track\<close> is never empty when the body runs: it starts
  with one run and no step removes one.
\<close>

definition make_track_step :: "('a \<times> nat) list \<Rightarrow> 'a \<Rightarrow> ('a \<times> nat) list" where
  "make_track_step track note_val =
     (if note_val = fst (last track)
      then butlast track @ [(fst (last track), snd (last track) + 1)]
      else track @ [(note_val, 1)])"

text \<open>\<^verbatim>\<open>note_list[0]\<close> of an empty list raises IndexError.\<close>

definition make_track :: "'a list \<Rightarrow> py_error + ('a \<times> nat) list" where
  "make_track note_list =
     (case note_list of
        [] \<Rightarrow> Inl IndexError
      | n # rest \<Rightarrow> Inr (foldl make_track_step [(n, 1)] rest))"

subsection \<open>The note loop of \<^verbatim>\<open>generate_midi\<close>\<close>

record 'p note_event =
  velocity :: int
  pitch :: 'p
  note_start :: npfloat
  note_end :: npfloat

text \<open>
  The inner loop over one track; the state is \<^verbatim>\<open>start_time\<close> and the notes
  appended to the instrument so far.  \<^verbatim>\<open>beat_length\<close> is the number of the input
  field (0.2 unless changed), the count of a run is converted to a float, and the
  product and the sum round.
\<close>

fun assemble_loop ::
  "npfloat \<Rightarrow> npfloat \<Rightarrow> 'p note_event list \<Rightarrow> ('p \<times> nat) list
     \<Rightarrow> npfloat \<times> 'p note_event list" where
  "assemble_loop beat_length start_time notes [] = (start_time, notes)"
| "assemble_loop beat_length start_time notes (note_info # track) =
     (let end_time = fadd start_time (fmul beat_length (to_float (real (snd note_info))));
          ev = \<lparr>velocity = 100, pitch = fst note_info,
                note_start = start_time, note_end = end_time\<rparr>
      in assemble_loop beat_length end_time (notes @ [ev]) track)"

text \<open>One voice: \<^verbatim>\<open>start_time = 0\<close> and an instrument without notes.\<close>

definition assemble :: "npfloat \<Rightarrow> ('p \<times> nat) list \<Rightarrow> npfloat \<times> 'p note_event list" where
  "assemble beat_length track = assemble_loop beat_length (Fin 0) [] track"

subsection \<open>Notions of the specification\<close>

text \<open>Expanding a run sequence: each pitch repeated by its count.\<close>

definition expand :: "('a \<times> nat) list \<Rightarrow> 'a list" where
  "expand runs = concat (map (\<lambda>(p, c). replicate c p) runs)"

text \<open>The number of maximal constant-value stretches of a sequence.\<close>

fun stretches :: "'a list \<Rightarrow> nat" where
  "stretches [] = 0"
| "stretches [x] = 1"
| "stretches (x # y # zs) = (if x = y then stretches (y # zs) else Suc (stretches (y # zs)))"

text \<open>The loop invariant of the run encoder, and the notes of a track from a start time.\<close>

definition run_inv :: "('a \<times> nat) list \<Rightarrow> bool" where
  "run_inv track \<longleftrightarrow> track \<noteq> [] \<and> 0 < snd (last track)
      \<and> length track = stretches (expand track)"

fun notes_from :: "npfloat \<Rightarrow> npfloat \<Rightarrow> ('p \<times> nat) list \<Rightarrow> 'p note_event list" where
  "notes_from b t [] = []"
| "notes_from b t (r # tr) =
     \<lparr>velocity = 100, pitch = fst r, note_start = t,
        note_end = fadd t (fmul b (to_float (real (snd r))))\<rparr>
       # notes_from b (fadd t (fmul b (to_float (real (snd r))))) tr"

text \<open>The time after the last run of a track that starts at \<open>t\<close>.\<close>

fun end_from :: "npfloat \<Rightarrow> npfloat \<Rightarrow> ('p \<times> nat) list \<Rightarrow> npfloat" where
  "end_from b t [] = t"
| "end_from b t (r # tr) = end_from b (fadd t (fmul b (to_float (real (snd r))))) tr"

section \<open>Run encoder\<close>

lemma expand_append: "expand (xs @ ys) = expand xs @ expand ys"
  by (simp add: expand_def)

lemma expand_snoc: "expand (xs @ [(p, c)]) = expand xs @ replicate c p"
  by (simp add: expand_def)

lemma stretches_snoc:
  "ys \<noteq> [] \<Longrightarrow> stretches (ys @ [n]) = (if last ys = n then stretches ys else Suc (stretches ys))"
proof (induction ys rule: stretches.induct)
  case 1 then show ?case by simp
next
  case (2 x) then show ?case by simp
next
  case (3 x y zs)
  then show ?case by simp
qed

lemma last_expand:
  "track \<noteq> [] \<Longrightarrow> 0 < snd (last track) \<Longrightarrow> last (expand track) = fst (last track) \<and> expand track \<noteq> []"
proof -
  assume a: "track \<noteq> []" "0 < snd (last track)"
  obtain p c where pc: "last track = (p, c)" by (cases "last track")
  have t: "track = butlast track @ [(p, c)]" using a(1) pc by (metis append_butlast_last_id)
  have c: "0 < c" using a(2) pc by simp
  have "expand track = expand (butlast track) @ replicate c p"
    using t expand_snoc by metis
  then show ?thesis using c pc by (cases c) (simp_all add: replicate_append_same)
qed

lemma step_expand:
  assumes "track \<noteq> []"
  shows "expand (make_track_step track n) = expand track @ [n]"
proof -
  obtain p c where pc: "last track = (p, c)" by (cases "last track")
  have t: "track = butlast track @ [(p, c)]" using assms pc by (metis append_butlast_last_id)
  have e: "expand track = expand (butlast track) @ replicate c p"
    using t expand_snoc by metis
  show ?thesis
  proof (cases "n = p")
    case True
    then have "make_track_step track n = butlast track @ [(p, Suc c)]"
      by (simp add: make_track_step_def pc)
    then show ?thesis using e True by (simp add: expand_snoc replicate_append_same)
  next
    case False
    then show ?thesis by (simp add: make_track_step_def pc expand_snoc)
  qed
qed

lemma step_inv:
  assumes "run_inv track"
  shows "run_inv (make_track_step track n)"
proof -
  from assms have ne: "track \<noteq> []" and pos: "0 < snd (last track)"
    and len: "length track = stretches (expand track)" by (simp_all add: run_inv_def)
  from last_expand[OF ne pos] have le: "last (expand track) = fst (last track)" and ene: "expand track \<noteq> []" by simp_all
  have ex: "expand (make_track_step track n) = expand track @ [n]" by (rule step_expand[OF ne])
  show ?thesis
  proof (cases "n = fst (last track)")
    case True
    then have m: "make_track_step track n = butlast track @ [(fst (last track), snd (last track) + 1)]"
      by (simp add: make_track_step_def)
    have "length (make_track_step track n) = length track" using ne m by simp
    moreover have "stretches (expand track @ [n]) = stretches (expand track)"
      using stretches_snoc[OF ene] le True by simp
    ultimately show ?thesis using m len ex by (simp add: run_inv_def)
  next
    case False
    then have m: "make_track_step track n = track @ [(n, 1)]"
      by (simp add: make_track_step_def)
    have "stretches (expand track @ [n]) = Suc (stretches (expand track))"
      using stretches_snoc[OF ene] le False by simp
    then show ?thesis using m len ex by (simp add: run_inv_def)
  qed
qed

lemma foldl_expand:
  "track \<noteq> [] \<Longrightarrow> expand (foldl make_track_step track rest) = expand track @ rest"
proof (induction rest arbitrary: track)
  case Nil then show ?case by simp
next
  case (Cons n rest)
  have "make_track_step track n \<noteq> []"
    using Cons.prems by (simp add: make_track_step_def)
  then show ?case using Cons.IH[of "make_track_step track n"] step_expand[OF Cons.prems] by simp
qed

lemma foldl_inv:
  "run_inv track \<Longrightarrow> run_inv (foldl make_track_step track rest)"
  by (induction rest arbitrary: track) (simp_all add: step_inv)

lemma sum_counts_expand: "sum_list (map snd runs) = length (expand runs)"
  by (induction runs) (auto simp: expand_def)

lemma stretches_alternating:
  "(\<forall>i. Suc i < length xs \<longrightarrow> xs ! i \<noteq> xs ! Suc i) \<Longrightarrow> stretches xs = length xs"
proof (induction xs rule: stretches.induct)
  case 1 then show ?case by simp
next
  case (2 x) then show ?case by simp
next
  case (3 x y zs)
  have "x \<noteq> y" using 3(3) by (metis length_Cons less_Suc_eq_0_disj nth_Cons_0 nth_Cons_Suc)
  moreover have "\<forall>i. Suc i < length (y # zs) \<longrightarrow> (y # zs) ! i \<noteq> (y # zs) ! Suc i"
  proof (intro allI impI)
    fix i assume "Suc i < length (y # zs)"
    then have "Suc (Suc i) < length (x # y # zs)" by simp
    from 3(3)[rule_format, OF this] show "(y # zs) ! i \<noteq> (y # zs) ! Suc i" by simp
  qed
  ultimately show ?case using 3 by simp
qed

lemma stretches_constant:
  "xs \<noteq> [] \<Longrightarrow> (\<forall>x \<in> set xs. x = c) \<Longrightarrow> stretches xs = 1"
  by (induction xs rule: stretches.induct) auto

text \<open>
  Claim C2.  For every non-empty sequence \<open>make_track\<close> returns a run sequence
  whose expansion (each pitch repeated by its count) is the input again; the counts
  sum to the length of the input; the number of runs is the number of maximal
  constant-value stretches, so a sequence whose neighbours always differ gives one
  run per sample and a constant sequence gives exactly one run.
\<close>

theorem make_track_roundtrip:
  assumes "note_list \<noteq> []"
  shows "\<exists>runs. make_track note_list = Inr runs
           \<and> expand runs = note_list
           \<and> sum_list (map snd runs) = length note_list
           \<and> length runs = stretches note_list
           \<and> ((\<forall>i. Suc i < length note_list \<longrightarrow> note_list ! i \<noteq> note_list ! Suc i)
                 \<longrightarrow> length runs = length note_list)
           \<and> ((\<forall>x \<in> set note_list. x = hd note_list) \<longrightarrow> length runs = 1)"
proof -
  obtain n rest where nl: "note_list = n # rest" using assms by (cases note_list) auto
  define runs where "runs = foldl make_track_step [(n, 1)] rest"
  have mk: "make_track note_list = Inr runs" by (simp add: make_track_def nl runs_def)
  have ex: "expand runs = note_list"
    unfolding runs_def nl using foldl_expand[of "[(n, 1)]" rest] by (simp add: expand_def)
  have "run_inv [(n, 1::nat)]" by (simp add: run_inv_def expand_def)
  then have "run_inv runs" unfolding runs_def by (rule foldl_inv)
  then have len: "length runs = stretches note_list" using ex by (simp add: run_inv_def)
  have sm: "sum_list (map snd runs) = length note_list" using sum_counts_expand[of runs] ex by simp
  show ?thesis using mk ex len sm stretches_alternating[of note_list] stretches_constant[OF assms, of "hd note_list"]
    by auto
qed

theorem make_track_roundtrip_witness:
  "[60, 60, 64 :: int] \<noteq> []
   \<and> make_track [60, 60, 64 :: int] = Inr [(60, 2), (64, 1)]
   \<and> (\<exists>runs. make_track [60, 60, 64 :: int] = Inr runs
           \<and> expand runs = [60, 60, 64]
           \<and> sum_list (map snd runs) = length [60, 60, 64 :: int]
           \<and> length runs = stretches [60, 60, 64 :: int]
           \<and> ((\<forall>i. Suc i < length [60, 60, 64 :: int]
                     \<longrightarrow> [60, 60, 64 :: int] ! i \<noteq> [60, 60, 64] ! Suc i)
                 \<longrightarrow> length runs = length [60, 60, 64 :: int])
           \<and> ((\<forall>x \<in> set [60, 60, 64 :: int]. x = hd [60, 60, 64])
                 \<longrightarrow> length runs = 1))"
proof -
  have ne: "[60, 60, 64 :: int] \<noteq> []" by simp
  have ev: "make_track [60, 60, 64 :: int] = Inr [(60, 2), (64, 1)]"
    by (simp add: make_track_def make_track_step_def)
  show ?thesis using ne ev make_track_roundtrip[OF ne] by blast
qed

section \<open>Evaluating the arithmetic\<close>

lemma ilog2_numeral:
  "ilog2 (numeral k) x =
     (if 2 \<le> x then ilog2 (pred_numeral k) (x / 2) + 1
      else if x < 1 then ilog2 (pred_numeral k) (2 * x) - 1
      else 0)"
  by (simp add: numeral_eq_Suc)

lemmas fl_eval = rd_def rne_def pow2_def ilog2_numeral Let_def to_float_def max_double_def

lemma rd_0: "rd 0 = 0"
  by (simp add: rd_def)

lemma max_double_pos: "0 < max_double"
  by (simp add: max_double_def)

lemma to_float_0: "to_float 0 = Fin 0"
  using max_double_pos by (simp add: to_float_def rd_0)

lemma to_float_1: "to_float 1 = Fin 1"
  by (simp add: fl_eval)

section \<open>Note loop\<close>

lemma assemble_loop_notes_from:
  "assemble_loop b t ns tr = (end_from b t tr, ns @ notes_from b t tr)"
  by (induction tr arbitrary: t ns) (simp_all add: Let_def)

lemma length_notes_from: "length (notes_from b t tr) = length tr"
  by (induction tr arbitrary: t) simp_all

lemma notes_from_start_hd: "tr \<noteq> [] \<Longrightarrow> note_start (hd (notes_from b t tr)) = t"
  by (cases tr) simp_all

lemma notes_from_event:
  "i < length tr \<Longrightarrow>
     note_end (notes_from b t tr ! i)
       = fadd (note_start (notes_from b t tr ! i)) (fmul b (to_float (real (snd (tr ! i)))))
     \<and> pitch (notes_from b t tr ! i) = fst (tr ! i)
     \<and> velocity (notes_from b t tr ! i) = 100"
proof (induction tr arbitrary: t i)
  case Nil then show ?case by simp
next
  case (Cons r tr)
  then show ?case by (cases i) simp_all
qed

lemma notes_from_contiguous:
  "Suc i < length tr \<Longrightarrow>
     note_end (notes_from b t tr ! i) = note_start (notes_from b t tr ! Suc i)"
proof (induction tr arbitrary: t i)
  case Nil then show ?case by simp
next
  case (Cons r tr)
  show ?case
  proof (cases i)
    case 0
    then show ?thesis using Cons.prems by (cases tr) simp_all
  next
    case (Suc j)
    then show ?thesis using Cons by simp
  qed
qed

lemma notes_from_last_end:
  "tr \<noteq> [] \<Longrightarrow> note_end (last (notes_from b t tr)) = end_from b t tr"
proof (induction tr arbitrary: t)
  case Nil then show ?case by simp
next
  case (Cons r tr)
  show ?case
  proof (cases tr)
    case Nil then show ?thesis by simp
  next
    case (Cons r' tr')
    then have "notes_from b (fadd t (fmul b (to_float (real (snd r))))) tr \<noteq> []" by simp
    then show ?thesis
      using Cons.IH[of "fadd t (fmul b (to_float (real (snd r))))"] Cons by simp
  qed
qed

text \<open>
  Claim C3, as the code has it.  For every non-empty run sequence the note loop
  produces one event per run; the first event starts at time 0; the end of every
  event is its start plus the unit duration times the count of its run, the product
  and the sum rounded to binary64; the end of every event is exactly the start of
  the next one; and the end of the last event is the final \<open>start_time\<close>.
\<close>

theorem assemble_contiguous:
  assumes "track \<noteq> []"
  shows "\<exists>total events. assemble beat_length track = (total, events)
           \<and> length events = length track
           \<and> note_start (hd events) = Fin 0
           \<and> (\<forall>i < length track.
                 note_end (events ! i)
                   = fadd (note_start (events ! i))
                          (fmul beat_length (to_float (real (snd (track ! i)))))
                 \<and> pitch (events ! i) = fst (track ! i))
           \<and> (\<forall>i. Suc i < length events \<longrightarrow> note_end (events ! i) = note_start (events ! Suc i))
           \<and> note_end (last events) = total"
proof -
  let ?ev = "notes_from beat_length (Fin 0) track"
  have a: "assemble beat_length track = (end_from beat_length (Fin 0) track, ?ev)"
    by (simp add: assemble_def assemble_loop_notes_from)
  have d: "\<forall>i < length track.
             note_end (?ev ! i)
               = fadd (note_start (?ev ! i)) (fmul beat_length (to_float (real (snd (track ! i)))))
             \<and> pitch (?ev ! i) = fst (track ! i)"
    using notes_from_event[of _ track beat_length "Fin 0"] by simp
  have c: "\<forall>i. Suc i < length ?ev \<longrightarrow> note_end (?ev ! i) = note_start (?ev ! Suc i)"
    using notes_from_contiguous[of _ track beat_length "Fin 0"] by (simp add: length_notes_from)
  have l: "note_end (last ?ev) = end_from beat_length (Fin 0) track"
    using notes_from_last_end[OF assms, of beat_length "Fin 0"] .
  show ?thesis
    using a d c l length_notes_from[of beat_length "Fin 0" track]
      notes_from_start_hd[OF assms, of beat_length "Fin 0"]
    by blast
qed

text \<open>
  The theorem at the unit duration 0.2 (the binary64 value nearest to it) and the
  runs of \<open>[60, 60, 64]\<close>.
\<close>

theorem assemble_contiguous_witness:
  "[(60 :: int, 2 :: nat), (64, 1)] \<noteq> []
   \<and> (\<exists>total events.
         assemble (Fin (3602879701896397 / 18014398509481984)) [(60 :: int, 2 :: nat), (64, 1)]
           = (total, events)
         \<and> length events = length [(60 :: int, 2 :: nat), (64, 1)]
         \<and> note_start (hd events) = Fin 0
         \<and> (\<forall>i < length [(60 :: int, 2 :: nat), (64, 1)].
               note_end (events ! i)
                 = fadd (note_start (events ! i))
                        (fmul (Fin (3602879701896397 / 18014398509481984))
                              (to_float (real (snd ([(60 :: int, 2 :: nat), (64, 1)] ! i)))))
               \<and> pitch (events ! i) = fst ([(60 :: int, 2 :: nat), (64, 1)] ! i))
         \<and> (\<forall>i. Suc i < length events \<longrightarrow> note_end (events ! i) = note_start (events ! Suc i))
         \<and> note_end (last events) = total)"
  using assemble_contiguous[of "[(60 :: int, 2 :: nat), (64, 1)]"
          "Fin (3602879701896397 / 18014398509481984)"]
  by simp

text \<open>
  The claim as the specification states it fails at the default unit duration 0.2
  with six runs of one sample each.  The last event ends at the binary64 value
  written 1.2, while six times the unit duration is the next binary64 value
  (1.2000000000000002) as a float product and a number strictly between the two as
  an exact product.  The third event starts at 0.4 and ends at 0.6000000000000001;
  the difference of the two is not 0.2.
\<close>

theorem assemble_sum_counterexample:
  "assemble (Fin (3602879701896397 / 18014398509481984))
       [(60 :: int, 1 :: nat), (64, 1), (60, 1), (64, 1), (60, 1), (64, 1)]
     = (Fin (5404319552844595 / 4503599627370496),
        [\<lparr>velocity = 100, pitch = 60, note_start = Fin 0,
            note_end = Fin (3602879701896397 / 18014398509481984)\<rparr>,
         \<lparr>velocity = 100, pitch = 64, note_start = Fin (3602879701896397 / 18014398509481984),
            note_end = Fin (3602879701896397 / 9007199254740992)\<rparr>,
         \<lparr>velocity = 100, pitch = 60, note_start = Fin (3602879701896397 / 9007199254740992),
            note_end = Fin (2702159776422298 / 4503599627370496)\<rparr>,
         \<lparr>velocity = 100, pitch = 64, note_start = Fin (2702159776422298 / 4503599627370496),
            note_end = Fin (3602879701896397 / 4503599627370496)\<rparr>,
         \<lparr>velocity = 100, pitch = 60, note_start = Fin (3602879701896397 / 4503599627370496),
            note_end = Fin 1\<rparr>,
         \<lparr>velocity = 100, pitch = 64, note_start = Fin 1,
            note_end = Fin (5404319552844595 / 4503599627370496)\<rparr>])
   \<and> fmul (to_float (real (sum_list (map snd
          [(60 :: int, 1 :: nat), (64, 1), (60, 1), (64, 1), (60, 1), (64, 1)]))))
        (Fin (3602879701896397 / 18014398509481984))
     = Fin (5404319552844596 / 4503599627370496)
   \<and> real (sum_list (map snd [(60 :: int, 1 :: nat), (64, 1), (60, 1), (64, 1), (60, 1), (64, 1)]))
        * (3602879701896397 / 18014398509481984)
     \<noteq> 5404319552844595 / 4503599627370496
   \<and> fsub (Fin (2702159776422298 / 4503599627370496)) (Fin (3602879701896397 / 9007199254740992))
     \<noteq> Fin (3602879701896397 / 18014398509481984)"
  by (simp add: assemble_def fsub_def fl_eval)

section \<open>Quantizer: structure\<close>

lemmas fm_defs = freqMap_def freqMap_digitized_def linspace_def digitize_def
  check_array_monotonic_def searchsorted_right_def np_lt_def series_min_def series_max_def
  fsub_def

lemma upt2: "[0..<2] = [0, 1]" by (simp add: upt_rec)

lemma series_fold_min:
  "foldl (\<lambda>m w. if flt w m then w else m) (Fin a) (map Fin xs) = Fin (fold min xs a)"
proof (induction xs arbitrary: a)
  case Nil then show ?case by simp
next
  case (Cons x xs)
  show ?case using Cons.IH[of x] Cons.IH[of a] by (simp add: min_def)
qed

lemma series_fold_max:
  "foldl (\<lambda>m w. if flt m w then w else m) (Fin a) (map Fin xs) = Fin (fold max xs a)"
proof (induction xs arbitrary: a)
  case Nil then show ?case by simp
next
  case (Cons x xs)
  show ?case using Cons.IH[of x] Cons.IH[of a] by (simp add: max_def)
qed

lemma filter_Fin: "filter (\<lambda>v. v \<noteq> NaN) (map Fin xs) = map Fin xs"
  by (induction xs) simp_all

lemma series_min_Fin: "xs \<noteq> [] \<Longrightarrow> series_min (map Fin xs) = Fin (Min (set xs))"
proof -
  assume "xs \<noteq> []"
  then obtain x xs' where x: "xs = x # xs'" by (cases xs) auto
  show ?thesis
    unfolding series_min_def filter_Fin x
    by (simp add: series_fold_min Min.set_eq_fold[symmetric] del: foldl_Cons)
qed

lemma series_max_Fin: "xs \<noteq> [] \<Longrightarrow> series_max (map Fin xs) = Fin (Max (set xs))"
proof -
  assume "xs \<noteq> []"
  then obtain x xs' where x: "xs = x # xs'" by (cases xs) auto
  show ?thesis
    unfolding series_max_def filter_Fin x
    by (simp add: series_fold_max Max.set_eq_fold[symmetric] del: foldl_Cons)
qed


lemma lookup_ok:
  "(\<forall>i \<in> set idxs. i < length freq) \<Longrightarrow> lookup freq idxs = Inr (map (\<lambda>i. freq ! i) idxs)"
  by (induction idxs) simp_all

lemma searchsorted_right_le: "searchsorted_right a v \<le> length a"
  by (simp add: searchsorted_right_def)

lemma digitize_range:
  assumes "digitize x bins = Inr idxs"
  shows "length idxs = length x \<and> (\<forall>i \<in> set idxs. i \<le> length bins)"
proof -
  have "idxs = map (\<lambda>v. length bins - searchsorted_right (rev bins) v) x
        \<or> idxs = map (searchsorted_right bins) x"
    using assms by (auto simp: digitize_def Let_def split: if_splits)
  then show ?thesis
  proof
    assume "idxs = map (\<lambda>v. length bins - searchsorted_right (rev bins) v) x"
    then show ?thesis by auto
  next
    assume "idxs = map (searchsorted_right bins) x"
    then show ?thesis using searchsorted_right_le by auto
  qed
qed

lemma digitize_returns:
  "check_array_monotonic bins \<noteq> 0 \<Longrightarrow> \<exists>idxs. digitize x bins = Inr idxs"
  by (simp add: digitize_def Let_def)

lemma linspace_length:
  "linspace start stop (int m) = Inr bs \<Longrightarrow> length bs = m"
  by (auto simp: linspace_def Let_def split: if_splits)

lemma linspace_returns: "\<exists>bs. linspace start stop (int m) = Inr bs"
  by (simp add: linspace_def Let_def)

text \<open>Whatever the edges are, a result of \<open>freqMap\<close> is drawn from the scale, sample by sample.\<close>

lemma freqMap_from_digitize:
  assumes fr: "freq \<noteq> []"
    and lin: "linspace start stop (int (length freq) - 1) = Inr bins"
    and mono: "check_array_monotonic bins \<noteq> 0"
  shows "\<exists>idxs. digitize keys bins = Inr idxs \<and> length idxs = length keys
            \<and> (\<forall>i \<in> set idxs. i < length freq)
            \<and> lookup freq idxs = Inr (map (\<lambda>i. freq ! i) idxs)"
proof -
  have n: "int (length freq) - 1 = int (length freq - 1)" using fr by (cases freq) simp_all
  have len: "length bins = length freq - 1" using lin unfolding n by (rule linspace_length)
  obtain idxs where d: "digitize keys bins = Inr idxs" using digitize_returns[OF mono] by blast
  have r: "length idxs = length keys" "\<forall>i \<in> set idxs. i \<le> length bins"
    using digitize_range[OF d] by simp_all
  have lt: "\<forall>i \<in> set idxs. i < length freq"
  proof
    fix i assume "i \<in> set idxs"
    then have "i \<le> length freq - 1" using r(2) len by simp
    then show "i < length freq" using fr by (cases freq) simp_all
  qed
  show ?thesis using d r(1) lt lookup_ok[OF lt] by blast
qed

lemma ilog2_le_0: "x < 2 \<Longrightarrow> ilog2 n x \<le> 0"
proof (induction n arbitrary: x)
  case 0 then show ?case by simp
next
  case (Suc n)
  show ?case
  proof (cases "x < 1")
    case True
    then have "ilog2 n (2 * x) \<le> 0" by (intro Suc.IH) simp
    then show ?thesis using Suc.prems True by simp
  next
    case False
    then show ?thesis using Suc.prems by simp
  qed
qed

lemma rne_bounds:
  assumes "0 \<le> q"
  shows "0 \<le> rne q" and "real_of_int (rne q) \<le> q + 1"
proof -
  have f0: "0 \<le> \<lfloor>q\<rfloor>" using assms by simp
  have fq: "real_of_int \<lfloor>q\<rfloor> \<le> q" by simp
  have fq1: "real_of_int (\<lfloor>q\<rfloor> + 1) \<le> q + 1" using fq by simp
  have fq0: "real_of_int \<lfloor>q\<rfloor> \<le> q + 1" using fq by linarith
  have d: "rne q = \<lfloor>q\<rfloor> \<or> rne q = \<lfloor>q\<rfloor> + 1" by (simp add: rne_def Let_def)
  from d show "0 \<le> rne q" using f0 by (elim disjE) simp_all
  from d show "real_of_int (rne q) \<le> q + 1"
  proof
    assume "rne q = \<lfloor>q\<rfloor>" then show ?thesis using fq0 by (simp only:)
  next
    assume "rne q = \<lfloor>q\<rfloor> + 1" then show ?thesis using fq1 by (simp only:)
  qed
qed

lemma pow2_le_1: "e \<le> 0 \<Longrightarrow> 0 < pow2 e \<and> pow2 e \<le> 1"
  by (auto simp: pow2_def divide_le_eq)

lemma rd_unit:
  assumes "0 \<le> x" "x \<le> 1"
  shows "0 \<le> rd x \<and> rd x \<le> 2"
proof (cases "x = 0")
  case True then show ?thesis by (simp add: rd_def)
next
  case False
  define e where "e = max (ilog2 2200 \<bar>x\<bar>) (- 1022)"
  define u where "u = pow2 (e - 52)"
  have "ilog2 2200 \<bar>x\<bar> \<le> 0" using assms by (intro ilog2_le_0) simp
  then have "e - 52 \<le> 0" by (simp add: e_def)
  then have u: "0 < u" "u \<le> 1" using pow2_le_1 by (simp_all add: u_def)
  have q: "0 \<le> x / u" using assms(1) u(1) by simp
  have r: "rd x = real_of_int (rne (x / u)) * u"
    using False by (simp add: rd_def Let_def e_def u_def)
  have lo: "0 \<le> rd x" unfolding r using rne_bounds(1)[OF q] u(1) by simp
  have "real_of_int (rne (x / u)) * u \<le> (x / u + 1) * u"
    using rne_bounds(2)[OF q] u(1) by (intro mult_right_mono) simp_all
  also have "\<dots> = x + u" using u(1) by (simp add: field_simps)
  also have "\<dots> \<le> 2" using assms(2) u(2) by simp
  finally show ?thesis using lo r by simp
qed

lemma max_double_ge_2: "2 \<le> max_double"
proof -
  have "(1::real) \<le> 2 ^ 971" by simp
  then have "(2 ^ 53 - 1) * (1::real) \<le> (2 ^ 53 - 1) * 2 ^ 971"
    by (intro mult_left_mono) simp_all
  then show ?thesis by (simp add: max_double_def)
qed

lemma to_float_unit: "0 \<le> x \<Longrightarrow> x \<le> 1 \<Longrightarrow> to_float x = Fin (rd x)"
  using rd_unit[of x] max_double_ge_2 by (simp add: to_float_def Let_def)

lemma fadd_NaN_right: "fadd v NaN = NaN"
  by (cases v) simp_all

lemma fmul_NaN_right: "fmul v NaN = NaN"
  by (cases v) simp_all

lemma feq_NaN_right: "feq v NaN = False"
  by (cases v) simp_all

lemma adjacent_all_nth:
  "(\<And>j. Suc j < length ys \<Longrightarrow> P (ys ! j) (ys ! Suc j)) \<Longrightarrow> adjacent_all P ys"
proof (induction P ys rule: adjacent_all.induct)
  case (1 P u v vs)
  have "P u v" using 1(2)[of 0] by simp
  moreover have "adjacent_all P (v # vs)"
  proof (rule 1(1))
    fix j assume "Suc j < length (v # vs)"
    then show "P ((v # vs) ! j) ((v # vs) ! Suc j)" using 1(2)[of "Suc j"] by simp
  qed
  ultimately show ?case by simp
qed simp_all

lemma check_nan_prefix:
  assumes "\<And>i. Suc i < length bs \<Longrightarrow> bs ! i = NaN"
  shows "check_array_monotonic bs \<noteq> 0"
proof (cases bs)
  case Nil then show ?thesis by (simp add: check_array_monotonic_def)
next
  case (Cons a0 as)
  show ?thesis
  proof (cases as)
    case Nil then show ?thesis using Cons by (simp add: check_array_monotonic_def)
  next
    case (Cons a1 rest)
    have a0: "a0 = NaN" using assms[of 0] \<open>bs = a0 # as\<close> Cons by simp
    have dw: "dropWhile (\<lambda>v. feq v NaN) as = a1 # rest"
      unfolding Cons by (simp add: feq_NaN_right)
    have f: "flt NaN a1 = False" by simp
    have adj: "adjacent_all (\<lambda>l n. \<not> flt l n) (a1 # rest) = True"
    proof (rule eqTrueI, rule adjacent_all_nth)
      fix j assume "Suc j < length (a1 # rest)"
      then have "Suc (Suc j) < length bs" using \<open>bs = a0 # as\<close> Cons by simp
      from assms[OF this] have "(a1 # rest) ! j = NaN" using \<open>bs = a0 # as\<close> Cons by simp
      then show "\<not> flt ((a1 # rest) ! j) ((a1 # rest) ! Suc j)" by simp
    qed
    have "check_array_monotonic bs = - 1"
      unfolding check_array_monotonic_def \<open>bs = a0 # as\<close> a0
      by (simp only: list.case dw f adj if_True if_False)
    then show ?thesis by simp
  qed
qed

lemma linspace_nan_prefix:
  assumes st: "start = NaN \<or> start = NInf"
    and lin: "linspace start stop (int m) = Inr bs"
    and i: "Suc i < m"
  shows "bs ! i = NaN"
proof -
  let ?D = "fsub stop start"
  have sp: "?D = NaN \<or> ?D = PInf"
  proof (cases "start = NaN")
    case True then show ?thesis by (simp add: fsub_def fadd_NaN_right)
  next
    case False
    then have "start = NInf" using st by simp
    then show ?thesis by (cases stop) (simp_all add: fsub_def)
  qed
  have dstep: "fdiv ?D d = ?D" for d using sp by auto
  have nz: "feq ?D (Fin 0) = False" using sp by auto
  have elt: "fadd (fmul (Fin (real i)) ?D) start = NaN"
  proof (cases "start = NaN")
    case True then show ?thesis by (simp add: fadd_NaN_right)
  next
    case False
    then have s: "start = NInf" using st by simp
    from sp show ?thesis
    proof
      assume "?D = NaN" then show ?thesis by simp
    next
      assume "?D = PInf" then show ?thesis using s by simp
    qed
  qed
  have "bs = (map (\<lambda>v. fadd v start) (map (\<lambda>v. fmul v ?D) (map (\<lambda>k. Fin (real k)) [0..<m])))
               [m - 1 := stop]"
    using lin i by (simp add: linspace_def Let_def dstep nz)
  then have "bs ! i = fadd (fmul (Fin (real i)) ?D) start" using i by simp
  then show ?thesis using elt by simp
qed

lemma np_log_nonpos: "x \<le> 0 \<Longrightarrow> np_log lg (Fin x) = NaN \<or> np_log lg (Fin x) = NInf"
  by simp

lemma check_constant: "check_array_monotonic (replicate m (Fin v)) = 1"
proof (cases m)
  case 0 then show ?thesis by (simp add: check_array_monotonic_def)
next
  case (Suc k)
  have "dropWhile (\<lambda>w. feq w (Fin v)) (replicate k (Fin v)) = []" by simp
  then show ?thesis unfolding Suc check_array_monotonic_def
    by (simp only: replicate_Suc list.case)
qed

lemma searchsorted_constant: "searchsorted_right (replicate m (Fin v)) (Fin v) = m"
  by (simp add: searchsorted_right_def np_lt_def)

lemma digitize_constant:
  "digitize (map (\<lambda>x. Fin v) xs) (replicate m (Fin v)) = Inr (replicate (length xs) m)"
  by (simp add: digitize_def check_constant searchsorted_constant map_replicate_const)

lemma linspace_constant:
  assumes dbl: "is_double v"
  shows "linspace (Fin v) (Fin v) (int m) = Inr (replicate m (Fin v))"
proof -
  have tv: "to_float v = Fin v" using dbl by (simp add: is_double_def)
  have delta: "fsub (Fin v) (Fin v) = Fin 0" by (simp add: fsub_def to_float_0)
  have add0: "fadd (Fin 0) (Fin v) = Fin v" by (simp add: tv)
  consider "m = 0" | "m = 1" | "2 \<le> m" by linarith
  then show ?thesis
  proof cases
    case 1 then show ?thesis by (simp add: linspace_def)
  next
    case 2 then show ?thesis by (simp add: linspace_def delta to_float_0 tv)
  next
    case 3
    then have c: "\<not> int m < 0" "0 < int m - 1" "1 < int m" by simp_all
    define d where "d = real_of_int (int m - 1)"
    have dpos: "0 < d" using 3 by (simp add: d_def)
    have dm: "d = real m - 1" by (simp add: d_def)
    have step: "fdiv (Fin 0) d = Fin 0" by (simp add: to_float_0)
    have elt: "fadd (fmul (fdiv (Fin (real k)) d) (Fin 0)) (Fin v) = Fin v" if "k < m" for k
    proof -
      have "real k \<le> d" using that dm by simp
      then have "0 \<le> real k / d" "real k / d \<le> 1" using dpos by simp_all
      then have "fdiv (Fin (real k)) d = Fin (rd (real k / d))" by (simp add: to_float_unit)
      then show ?thesis by (simp add: to_float_0 tv)
    qed
    have y2: "map (\<lambda>w. fadd w (Fin v))
                (map (\<lambda>w. fmul (fdiv w d) (Fin 0)) (map (\<lambda>k. Fin (real k)) [0..<m]))
              = replicate m (Fin v)"
    proof (rule nth_equalityI)
      show "length (map (\<lambda>w. fadd w (Fin v))
                (map (\<lambda>w. fmul (fdiv w d) (Fin 0)) (map (\<lambda>k. Fin (real k)) [0..<m])))
            = length (replicate m (Fin v))" by simp
    next
      fix i assume "i < length (map (\<lambda>w. fadd w (Fin v))
                (map (\<lambda>w. fmul (fdiv w d) (Fin 0)) (map (\<lambda>k. Fin (real k)) [0..<m])))"
      then have "i < m" by simp
      then show "map (\<lambda>w. fadd w (Fin v))
                (map (\<lambda>w. fmul (fdiv w d) (Fin 0)) (map (\<lambda>k. Fin (real k)) [0..<m])) ! i
            = replicate m (Fin v) ! i" using elt[of i] by simp
    qed
    have upd: "(replicate m (Fin v))[nat (int m) - 1 := Fin v] = replicate m (Fin v)"
      by (rule nth_equalityI) (simp_all add: nth_list_update)
    have f0: "feq (Fin 0) (Fin 0) = True" by simp
    show ?thesis
      unfolding linspace_def Let_def delta d_def[symmetric] step nat_int
      by (simp only: c if_True if_False f0 y2 upd[unfolded nat_int])
  qed
qed

section \<open>Quantizer: the claims on inversion, offset, constant series and logarithms\<close>

text \<open>
  The caller of \<open>freqMap\<close> inverts a voice by reversing its scale; \<open>freqMap\<close>
  itself is called with the default arguments.
\<close>

lemma voice_fm_inverted:
  "voice_fm lg data freq True = freqMap lg data (rev freq) True False 0"
  by (simp add: voice_fm_def)

text \<open>
  Claim C4 at the series \<open>[1, 2]\<close> and the scale \<open>[60, 64, 67]\<close> on linear edges:
  with \<open>inv = True\<close> the function returns \<open>[64, 67]\<close>, the result for
  \<open>inv = False\<close>, while the reversed scale gives \<open>[64, 60]\<close>.
\<close>

theorem freqMap_ignores_inv:
  "freqMap log_rn [Fin 1, Fin 2] [60, 64, 67 :: int] False True 0 = Inr [64, 67]
   \<and> freqMap log_rn [Fin 1, Fin 2] [60, 64, 67 :: int] False False 0 = Inr [64, 67]
   \<and> freqMap log_rn [Fin 1, Fin 2] (rev [60, 64, 67 :: int]) False False 0 = Inr [64, 60]"
  by (simp add: fm_defs upt2 fl_eval)

text \<open>
  Claim C5 at the same series and scale: with \<open>offset = 12\<close> the function returns
  \<open>[64, 67]\<close>, the result for \<open>offset = 0\<close>, and not \<open>[76, 79]\<close>.
\<close>

theorem freqMap_ignores_offset:
  "freqMap log_rn [Fin 1, Fin 2] [60, 64, 67 :: int] False False 12 = Inr [64, 67]
   \<and> freqMap log_rn [Fin 1, Fin 2] [60, 64, 67 :: int] False False 0 = Inr [64, 67]
   \<and> map (\<lambda>p. p + 12) [64, 67 :: int] = [76, 79]"
  by (simp add: fm_defs upt2 fl_eval)

text \<open>
  Claim C1 as the specification states it fails: the constant series
  \<open>[5.0, 5.0, 5.0]\<close> against \<open>[60, 64, 67]\<close> yields 67, the last entry, for all
  three samples, and not the middle entry 64.
\<close>

theorem freqMap_constant_counterexample:
  "freqMap log_rn [Fin 5, Fin 5, Fin 5] [60, 64, 67 :: int] False False 0 = Inr [67, 67, 67]"
  by (simp add: fm_defs upt2 fl_eval)

text \<open>
  Claim C1, as the code has it.  For every non-empty constant series and every
  non-empty scale \<open>freqMap\<close> raises nothing and maps every sample to one entry, the
  last entry of the scale.  The value that is binned is a binary64 value: the sample
  itself on linear edges, and on logarithmic edges the logarithm of the sample, which
  must be positive.
\<close>

theorem freqMap_constant_series:
  assumes ne: "xs \<noteq> []" and const: "\<forall>x \<in> set xs. x = c" and fr: "freq \<noteq> []"
    and dbl: "is_double (if use_log then lg c else c)"
    and pos: "use_log \<longrightarrow> 0 < c"
  shows "freqMap lg (map Fin xs) freq use_log invert offset
           = Inr (replicate (length xs) (last freq))"
proof -
  have sx: "set xs = {c}" using ne const by (cases xs) auto
  have mn: "series_min (map Fin xs) = Fin c" unfolding series_min_Fin[OF ne] sx by simp
  have mx: "series_max (map Fin xs) = Fin c" unfolding series_max_Fin[OF ne] sx by simp
  have n: "int (length freq) - 1 = int (length freq - 1)" using fr by (cases freq) simp_all
  have lt: "length freq - 1 < length freq" using fr by (cases freq) simp_all
  have lk: "lookup freq (replicate (length xs) (length freq - 1))
              = Inr (replicate (length xs) (last freq))"
    using lt fr by (simp add: lookup_ok last_conv_nth map_replicate_const)
  show ?thesis
  proof (cases use_log)
    case True
    then have c: "0 < c" and d: "is_double (lg c)" using pos dbl by simp_all
    have keys: "map (np_log lg) (map Fin xs) = map (\<lambda>x. Fin (lg c)) xs"
      using const c by (induction xs) simp_all
    have lg: "np_log lg (Fin c) = Fin (lg c)" using c by simp
    have dg: "digitize (map (np_log lg) (map Fin xs)) (replicate (length freq - 1) (Fin (lg c)))
                = Inr (replicate (length xs) (length freq - 1))"
      unfolding keys by (rule digitize_constant)
    have "freqMap_digitized lg (map Fin xs) (length freq) use_log
            = Inr (replicate (length xs) (length freq - 1))"
      unfolding freqMap_digitized_def mn mx lg n linspace_constant[OF d]
      using True dg by (simp only: if_True sum.case)
    then show ?thesis unfolding freqMap_def using lk by simp
  next
    case False
    then have d: "is_double c" using dbl by simp
    have keys: "map Fin xs = map (\<lambda>x. Fin c) xs"
      using const by (induction xs) simp_all
    have dg: "digitize (map Fin xs) (replicate (length freq - 1) (Fin c))
                = Inr (replicate (length xs) (length freq - 1))"
      unfolding keys by (rule digitize_constant)
    have "freqMap_digitized lg (map Fin xs) (length freq) use_log
            = Inr (replicate (length xs) (length freq - 1))"
      unfolding freqMap_digitized_def mn mx n linspace_constant[OF d]
      using False dg by simp
    then show ?thesis unfolding freqMap_def using lk by simp
  qed
qed

text \<open>
  The theorem at \<open>[5.0, 5.0, 5.0]\<close> on linear edges and at \<open>[1.0, 1.0, 1.0]\<close> on
  logarithmic edges with the correctly rounded logarithm.
\<close>

theorem freqMap_constant_series_witness:
  "[5, 5, 5 :: real] \<noteq> [] \<and> set [5, 5, 5 :: real] = {5} \<and> [60, 64, 67 :: int] \<noteq> []
   \<and> is_double 5 \<and> is_double (log_rn 1) \<and> (0 :: real) < 1
   \<and> freqMap log_rn (map Fin [5, 5, 5]) [60, 64, 67 :: int] False False 0
         = Inr (replicate (length [5, 5, 5 :: real]) (last [60, 64, 67]))
   \<and> freqMap log_rn (map Fin [1, 1, 1]) [60, 64, 67 :: int] True False 0
         = Inr (replicate (length [1, 1, 1 :: real]) (last [60, 64, 67]))"
proof -
  have d5: "is_double 5" by (simp add: is_double_def fl_eval)
  have d1: "is_double (log_rn 1)" by (simp add: is_double_def log_rn_def rd_0 to_float_0)
  have a: "freqMap log_rn (map Fin [5, 5, 5]) [60, 64, 67 :: int] False False 0
         = Inr (replicate (length [5, 5, 5 :: real]) (last [60, 64, 67]))"
    by (rule freqMap_constant_series[where c = 5]) (simp_all add: d5)
  have b: "freqMap log_rn (map Fin [1, 1, 1]) [60, 64, 67 :: int] True False 0
         = Inr (replicate (length [1, 1, 1 :: real]) (last [60, 64, 67]))"
    by (rule freqMap_constant_series[where c = 1]) (simp_all add: d1)
  show ?thesis using d5 d1 a b by simp
qed

text \<open>
  Claim C6 as the specification states it fails: on logarithmic edges the series
  \<open>[0, 1]\<close> raises nothing; the zero becomes the pitch 67 and the one the pitch 64.
\<close>

theorem freqMap_log_zero_counterexample:
  "freqMap log_rn [Fin 0, Fin 1] [60, 64, 67 :: int] True False 0 = Inr [67, 64]"
  by (simp add: fm_defs upt2 log_rn_def rd_0)

text \<open>
  Claim C6, as the code has it.  On logarithmic edges a series of finite values that
  contains a zero or a negative value raises no error for a non-empty scale:
  \<open>freqMap\<close> returns one pitch of the scale for every sample, the non-positive ones
  included.
\<close>

theorem freqMap_log_nonpositive:
  assumes ne: "xs \<noteq> []" and np: "\<exists>x \<in> set xs. x \<le> 0" and fr: "freq \<noteq> []"
  shows "\<exists>ys. freqMap lg (map Fin xs) freq True invert offset = Inr ys
           \<and> length ys = length xs \<and> set ys \<subseteq> set freq"
proof -
  have "Min (set xs) \<le> 0" using np ne by (meson List.finite_set Min_le order_trans)
  then have st: "np_log lg (series_min (map Fin xs)) = NaN \<or> np_log lg (series_min (map Fin xs)) = NInf"
    unfolding series_min_Fin[OF ne] by (rule np_log_nonpos)
  have n: "int (length freq) - 1 = int (length freq - 1)" using fr by (cases freq) simp_all
  obtain bins where lin: "linspace (np_log lg (series_min (map Fin xs)))
                            (np_log lg (series_max (map Fin xs))) (int (length freq) - 1) = Inr bins"
    unfolding n using linspace_returns by blast
  have len: "length bins = length freq - 1" using lin unfolding n by (rule linspace_length)
  have "bins ! i = NaN" if "Suc i < length bins" for i
    using st lin that unfolding n len by (intro linspace_nan_prefix[where m = "length freq - 1"]) auto
  then have mono: "check_array_monotonic bins \<noteq> 0" by (rule check_nan_prefix)
  from freqMap_from_digitize[OF fr lin mono, of "map (np_log lg) (map Fin xs)"]
  obtain idxs where d: "digitize (map (np_log lg) (map Fin xs)) bins = Inr idxs"
    and l: "length idxs = length xs" and lt: "\<forall>i \<in> set idxs. i < length freq"
    and lk: "lookup freq idxs = Inr (map (\<lambda>i. freq ! i) idxs)" by auto
  have "freqMap lg (map Fin xs) freq True invert offset = Inr (map (\<lambda>i. freq ! i) idxs)"
    unfolding freqMap_def freqMap_digitized_def
    by (simp only: if_True lin d lk sum.case)
  moreover have "set (map (\<lambda>i. freq ! i) idxs) \<subseteq> set freq" using lt by auto
  ultimately show ?thesis using l by simp
qed

theorem freqMap_log_nonpositive_witness:
  "[0, 1 :: real] \<noteq> [] \<and> (\<exists>x \<in> set [0, 1 :: real]. x \<le> 0) \<and> [60, 64, 67 :: int] \<noteq> []
   \<and> (\<exists>ys. freqMap log_rn (map Fin [0, 1]) [60, 64, 67 :: int] True False 0 = Inr ys
           \<and> length ys = length [0, 1 :: real] \<and> set ys \<subseteq> set [60, 64, 67])"
proof -
  have a: "[0, 1 :: real] \<noteq> []" by simp
  have b: "\<exists>x \<in> set [0, 1 :: real]. x \<le> 0" by simp
  have c: "[60, 64, 67 :: int] \<noteq> []" by simp
  show ?thesis using a b c freqMap_log_nonpositive[OF a b c, of log_rn False 0] by blast
qed

section \<open>Accuracy of the rounding\<close>

lemma pow2_powi: "pow2 e = 2 powi e"
  by (simp add: pow2_def power_int_def power_inverse[symmetric] inverse_eq_divide power_one_over)

lemma pow2_pos: "0 < pow2 e"
  by (simp add: pow2_powi)

lemma pow2_add1: "pow2 (e + 1) = 2 * pow2 e"
  by (simp add: pow2_powi power_int_add_1')

lemma pow2_mono: "a \<le> b \<Longrightarrow> pow2 a \<le> pow2 b"
  by (simp add: pow2_powi power_int_increasing)

lemma pow2_sub52: "pow2 (e - 52) = pow2 e / 2 ^ 52"
  by (simp add: pow2_powi power_int_diff)

lemma ilog2_correct:
  "0 < x \<Longrightarrow> pow2 (- int n) \<le> x \<Longrightarrow> x < 2 * pow2 (int n)
     \<Longrightarrow> pow2 (ilog2 n x) \<le> x \<and> x < 2 * pow2 (ilog2 n x)"
proof (induction n arbitrary: x)
  case 0
  then show ?case by (simp add: pow2_def)
next
  case (Suc n)
  have up: "pow2 (int (Suc n)) = 2 * pow2 (int n)"
    using pow2_add1[of "int n"] by (simp add: add.commute)
  have dn: "pow2 (- int n) = 2 * pow2 (- int (Suc n))"
    using pow2_add1[of "- int (Suc n)"] by simp
  have le1: "pow2 (- int n) \<le> 1" using pow2_mono[of "- int n" 0] by (simp add: pow2_def)
  have ge1: "1 \<le> pow2 (int n)" using pow2_mono[of 0 "int n"] by (simp add: pow2_def)
  show ?case
  proof (cases "2 \<le> x")
    case True
    have "pow2 (ilog2 n (x / 2)) \<le> x / 2 \<and> x / 2 < 2 * pow2 (ilog2 n (x / 2))"
      using True Suc.prems le1 up by (intro Suc.IH) simp_all
    then show ?thesis using True by (simp add: pow2_add1)
  next
    case False
    show ?thesis
    proof (cases "x < 1")
      case True
      have "pow2 (ilog2 n (2 * x)) \<le> 2 * x \<and> 2 * x < 2 * pow2 (ilog2 n (2 * x))"
        using True Suc.prems ge1 dn by (intro Suc.IH) simp_all
      moreover have "pow2 (ilog2 n (2 * x)) = 2 * pow2 (ilog2 n (2 * x) - 1)"
        using pow2_add1[of "ilog2 n (2 * x) - 1"] by simp
      ultimately show ?thesis using True False by simp
    next
      case False
      then show ?thesis using \<open>\<not> 2 \<le> x\<close> by (simp add: pow2_def)
    qed
  qed
qed

lemma rne_error: "\<bar>real_of_int (rne q) - q\<bar> \<le> 1 / 2"
proof -
  have a: "real_of_int \<lfloor>q\<rfloor> \<le> q" and b: "q < real_of_int \<lfloor>q\<rfloor> + 1" by linarith+
  show ?thesis
    using a b by (auto simp: rne_def Let_def)
qed

lemma rd_error:
  assumes lo: "pow2 (- 1022) \<le> x" and hi: "x < 2 * pow2 2200"
  shows "\<bar>rd x - x\<bar> \<le> x / 2 ^ 53"
proof -
  have xpos: "0 < x" using lo pow2_pos[of "- 1022"] by linarith
  have "pow2 (- int 2200) \<le> pow2 (- 1022)" by (rule pow2_mono) simp
  then have c: "pow2 (ilog2 2200 x) \<le> x" "x < 2 * pow2 (ilog2 2200 x)"
    using ilog2_correct[of x 2200] xpos lo hi by simp_all
  have ge: "- 1022 \<le> ilog2 2200 x"
  proof (rule ccontr)
    assume "\<not> - 1022 \<le> ilog2 2200 x"
    then have "ilog2 2200 x + 1 \<le> - 1022" by simp
    then have "pow2 (ilog2 2200 x + 1) \<le> pow2 (- 1022)" by (rule pow2_mono)
    then show False using c(2) lo by (simp add: pow2_add1)
  qed
  define e where "e = ilog2 2200 x"
  define u where "u = pow2 (e - 52)"
  have upos: "0 < u" by (simp add: u_def pow2_pos)
  have r: "rd x = real_of_int (rne (x / u)) * u"
    using xpos ge by (simp add: rd_def Let_def e_def u_def max_def)
  have "\<bar>rd x - x\<bar> = \<bar>real_of_int (rne (x / u)) - x / u\<bar> * u"
  proof -
    have "rd x - x = (real_of_int (rne (x / u)) - x / u) * u"
      using upos by (simp add: r field_simps)
    then show ?thesis using upos by (simp add: abs_mult)
  qed
  also have "\<dots> \<le> (1 / 2) * u" using rne_error upos by (intro mult_right_mono) simp_all
  also have "\<dots> = pow2 e / 2 ^ 53" by (simp add: u_def pow2_sub52)
  also have "\<dots> \<le> x / 2 ^ 53" using c(1) by (simp add: e_def divide_right_mono)
  finally show ?thesis .
qed

lemma rd_near:
  assumes "1 / 4 \<le> x" "x \<le> 8"
  shows "\<bar>rd x - x\<bar> \<le> 1 / 2 ^ 50"
proof -
  have "pow2 (- 1022) \<le> pow2 (- 2)" by (rule pow2_mono) simp
  then have lo: "pow2 (- 1022) \<le> x" using assms(1) by (simp add: pow2_def)
  have "pow2 3 \<le> pow2 2200" by (rule pow2_mono) simp
  then have hi: "x < 2 * pow2 2200" using assms(2) by (simp add: pow2_def)
  have "\<bar>rd x - x\<bar> \<le> x / 2 ^ 53" using lo hi by (rule rd_error)
  also have "\<dots> \<le> 8 / 2 ^ 53" using assms(2) by (simp add: divide_right_mono)
  finally show ?thesis by simp
qed

lemma max_double_ge_9: "9 \<le> max_double"
proof -
  have "(16::real) \<le> 2 ^ 971" using power_increasing[of 4 971 "2::real"] by simp
  then have "(2 ^ 53 - 1) * (16::real) \<le> (2 ^ 53 - 1) * 2 ^ 971"
    by (intro mult_left_mono) simp_all
  then show ?thesis by (simp add: max_double_def)
qed

lemma to_float_near:
  assumes "1 / 4 \<le> x" "x \<le> 8"
  shows "\<exists>r. to_float x = Fin r \<and> \<bar>r - x\<bar> \<le> 1 / 2 ^ 50"
proof -
  have e: "\<bar>rd x - x\<bar> \<le> 1 / 2 ^ 50" using assms by (rule rd_near)
  have "\<bar>rd x - x\<bar> \<le> 1" by (rule order_trans[OF e]) simp
  then have "\<bar>rd x\<bar> \<le> 9" using assms by linarith
  then have "to_float x = Fin (rd x)"
    using max_double_ge_9 by (simp add: to_float_def Let_def abs_le_iff)
  then show ?thesis using e by blast
qed

lemma ln2_bounds: "1 / 2 \<le> ln (2::real)" "ln (2::real) \<le> 1"
proof -
  have "(1 / 2 \<le> ln (2::real)) = (exp (1 / 2) \<le> (2::real))" by (rule ln_ge_iff) simp
  then show "1 / 2 \<le> ln (2::real)" using exp_half_le2 by blast
  have "ln (1 + 1 :: real) \<le> 1" by (rule ln_add_one_self_le_self) simp
  then show "ln (2::real) \<le> 1" by simp
qed

section \<open>Quantizer: the doubling series on logarithmic edges\<close>

lemma upt4: "[0..<4] = [0, 1, 2, 3]" by (simp add: upt_rec)

lemma doubling_digitized:
  "freqMap_digitized log_rn [Fin 1, Fin 2, Fin 4, Fin 8, Fin 16] 5 True = Inr [1, 1, 2, 3, 4]"
proof -
  define L where "L = ln (2::real)"
  have L: "1 / 2 \<le> L" "L \<le> 1" using ln2_bounds by (simp_all add: L_def)
  have l4: "ln (4::real) = 2 * L" using ln_realpow[of 2 2] by (simp add: L_def)
  have l8: "ln (8::real) = 3 * L" using ln_realpow[of 2 3] by (simp add: L_def)
  have l16: "ln (16::real) = 4 * L" using ln_realpow[of 2 4] by (simp add: L_def)
  have k1: "log_rn 1 = 0" by (simp add: log_rn_def rd_0)
  have k2: "\<bar>log_rn 2 - L\<bar> \<le> 1 / 2 ^ 50"
    unfolding log_rn_def L_def[symmetric] using L by (intro rd_near) simp_all
  have k4: "\<bar>log_rn 4 - 2 * L\<bar> \<le> 1 / 2 ^ 50"
    unfolding log_rn_def l4 using L by (intro rd_near) simp_all
  have k8: "\<bar>log_rn 8 - 3 * L\<bar> \<le> 1 / 2 ^ 50"
    unfolding log_rn_def l8 using L by (intro rd_near) simp_all
  have k16: "\<bar>log_rn 16 - 4 * L\<bar> \<le> 1 / 2 ^ 50"
    unfolding log_rn_def l16 using L by (intro rd_near) simp_all
  have eta: "(1::real) / 2 ^ 50 \<le> 1 / 1000" by simp
  have K2: "\<bar>log_rn 2 - L\<bar> \<le> 1 / 1000" using k2 eta by linarith
  have K4: "\<bar>log_rn 4 - 2 * L\<bar> \<le> 1 / 1000" using k4 eta by linarith
  have K8: "\<bar>log_rn 8 - 3 * L\<bar> \<le> 1 / 1000" using k8 eta by linarith
  have K16: "\<bar>log_rn 16 - 4 * L\<bar> \<le> 1 / 1000" using k16 eta by linarith
  have near: "\<exists>r. to_float x = Fin r \<and> \<bar>r - x\<bar> \<le> 1 / 1000" if h: "1 / 4 \<le> x" "x \<le> 8" for x
  proof -
    obtain r where "to_float x = Fin r" "\<bar>r - x\<bar> \<le> 1 / 2 ^ 50"
      using to_float_near[OF h] by blast
    then show ?thesis using eta by (intro exI[of _ r]) linarith
  qed
  have r16: "1 / 4 \<le> log_rn 16" "log_rn 16 \<le> 8" using K16 L by linarith+
  obtain d where d: "to_float (log_rn 16) = Fin d" "\<bar>d - log_rn 16\<bar> \<le> 1 / 1000"
    using near[OF r16] by blast
  have rs: "1 / 4 \<le> d / 3" "d / 3 \<le> 8" using d(2) K16 L by linarith+
  obtain s where s: "to_float (d / 3) = Fin s" "\<bar>s - d / 3\<bar> \<le> 1 / 1000"
    using near[OF rs] by blast
  have S: "\<bar>s - 4 * L / 3\<bar> \<le> 2 / 1000" using s(2) d(2) K16 by linarith
  have rp1: "1 / 4 \<le> s" "s \<le> 8" using S L by linarith+
  obtain p1 where p1: "to_float s = Fin p1" "\<bar>p1 - s\<bar> \<le> 1 / 1000"
    using near[OF rp1] by blast
  have rp2: "1 / 4 \<le> 2 * s" "2 * s \<le> 8" using S L by linarith+
  obtain p2 where p2: "to_float (2 * s) = Fin p2" "\<bar>p2 - 2 * s\<bar> \<le> 1 / 1000"
    using near[OF rp2] by blast
  have rp3: "1 / 4 \<le> 3 * s" "3 * s \<le> 8" using S L by linarith+
  obtain p3 where p3: "to_float (3 * s) = Fin p3" "\<bar>p3 - 3 * s\<bar> \<le> 1 / 1000"
    using near[OF rp3] by blast
  have rb1: "1 / 4 \<le> p1" "p1 \<le> 8" using p1(2) S L by linarith+
  obtain b1 where b1: "to_float p1 = Fin b1" "\<bar>b1 - p1\<bar> \<le> 1 / 1000"
    using near[OF rb1] by blast
  have rb2: "1 / 4 \<le> p2" "p2 \<le> 8" using p2(2) S L by linarith+
  obtain b2 where b2: "to_float p2 = Fin b2" "\<bar>b2 - p2\<bar> \<le> 1 / 1000"
    using near[OF rb2] by blast
  have rb3: "1 / 4 \<le> p3" "p3 \<le> 8" using p3(2) S L by linarith+
  obtain b3 where b3: "to_float p3 = Fin b3" "\<bar>b3 - p3\<bar> \<le> 1 / 1000"
    using near[OF rb3] by blast
  have B1: "\<bar>b1 - 4 * L / 3\<bar> \<le> 4 / 1000" using b1(2) p1(2) S by linarith
  have B2: "\<bar>b2 - 8 * L / 3\<bar> \<le> 6 / 1000" using b2(2) p2(2) S by linarith
  have sn: "s \<noteq> 0" using S L by linarith
  have lin: "linspace (Fin 0) (Fin (log_rn 16)) 4 = Inr [Fin 0, Fin b1, Fin b2, Fin (log_rn 16)]"
    by (simp add: linspace_def Let_def fsub_def upt4 d s sn to_float_0 p1 p2 p3 b1 b2 b3)
  have c: "0 < b1" "b1 \<le> b2" "b2 \<le> log_rn 16" "b1 \<noteq> 0"
    "log_rn 2 < b1" "b1 \<le> log_rn 4" "log_rn 4 < b2" "b2 \<le> log_rn 8" "log_rn 8 < log_rn 16"
    "0 < log_rn 2" "0 < log_rn 4" "0 < log_rn 8" "0 < log_rn 16" "0 < b2"
    using B1 B2 K2 K4 K8 K16 L by linarith+
  have dg: "digitize [Fin 0, Fin (log_rn 2), Fin (log_rn 4), Fin (log_rn 8), Fin (log_rn 16)]
              [Fin 0, Fin b1, Fin b2, Fin (log_rn 16)] = Inr [1, 1, 2, 3, 4]"
    using c by (simp add: digitize_def check_array_monotonic_def searchsorted_right_def np_lt_def
        Let_def not_less)
  show ?thesis
    by (simp add: freqMap_digitized_def series_min_def series_max_def k1 lin dg)
qed

lemma lookup_doubling: "lookup [0, 1, 2, 3, 4 :: int] [1, 1, 2, 3, 4] = Inr [1, 1, 2, 3, 4]"
  by simp

text \<open>
  Claim C9 as the specification states it fails: the series \<open>[1, 2, 4, 8, 16]\<close>
  against the scale \<open>[0, 1, 2, 3, 4]\<close> on logarithmic edges yields
  \<open>[1, 1, 2, 3, 4]\<close>; the first sample is not pinned to the lowest entry 0.
\<close>

theorem doubling_series_counterexample:
  "freqMap log_rn [Fin 1, Fin 2, Fin 4, Fin 8, Fin 16] [0, 1, 2, 3, 4 :: int] True False 0
     = Inr [1, 1, 2, 3, 4]"
proof -
  have len: "length [0, 1, 2, 3, 4 :: int] = 5" by simp
  show ?thesis
    unfolding freqMap_def len doubling_digitized by (simp only: sum.case lookup_doubling)
qed

text \<open>
  Claim C9, as the code has it.  The bin indices of that series are
  \<open>[1, 1, 2, 3, 4]\<close>: they never decrease, the first sample falls into bin 1 (the
  second scale entry) and the last sample into the highest bin 4; the pitches are the
  scale entries at these indices.
\<close>

theorem doubling_series_indices:
  "freqMap_digitized log_rn [Fin 1, Fin 2, Fin 4, Fin 8, Fin 16]
       (length [0, 1, 2, 3, 4 :: int]) True = Inr [1, 1, 2, 3, 4]
   \<and> sorted [1, 1, 2, 3, 4 :: nat]
   \<and> lookup [0, 1, 2, 3, 4 :: int] [1, 1, 2, 3, 4] = Inr [1, 1, 2, 3, 4]"
proof -
  have len: "length [0, 1, 2, 3, 4 :: int] = 5" by simp
  have "sorted [1, 1, 2, 3, 4 :: nat]" by simp
  then show ?thesis unfolding len using doubling_digitized lookup_doubling by blast
qed

section \<open>Quantizer: order of the bin indices\<close>

lemma overflow_sum: "to_float (2 ^ 1023 + 2 ^ 1023) = PInf"
  by (simp add: fl_eval)

text \<open>
  Claim C8 as the specification states it fails when the range of the series
  overflows: for the strictly increasing series of the two values \<open>- (2 ^ 1023)\<close> and
  \<open>2 ^ 1023\<close> the difference of maximum and minimum is infinite, the edges start
  with NaN, \<open>digitize\<close> takes them for decreasing edges and the bin indices are 4 and
  then 3: the pitches of the five-entry scale are 67 and then 65.
\<close>

theorem freqMap_increasing_counterexample:
  "freqMap log_rn [Fin (- (2 ^ 1023)), Fin (2 ^ 1023)] [60, 62, 64, 65, 67 :: int] False False 0
     = Inr [67, 65]"
  using overflow_sum by (simp add: fm_defs upt4 Let_def)

lemma np_lt_antimono: "v \<le> w \<Longrightarrow> np_lt (Fin w) b \<Longrightarrow> np_lt (Fin v) b"
  by (cases b) (auto simp: np_lt_def)

lemma searchsorted_right_mono:
  "v \<le> w \<Longrightarrow> searchsorted_right bins (Fin v) \<le> searchsorted_right bins (Fin w)"
proof (induction bins)
  case Nil then show ?case by (simp add: searchsorted_right_def)
next
  case (Cons b bins)
  then show ?case using np_lt_antimono[of v w b] by (auto simp: searchsorted_right_def)
qed

lemma sorted_map_mono:
  "sorted xs \<Longrightarrow> (\<And>v w. v \<le> w \<Longrightarrow> f v \<le> f w) \<Longrightarrow> sorted (map f xs)"
  by (induction xs) auto

text \<open>
  Claim C8, as the code has it.  For every strictly increasing series of finite values
  on linear edges and every non-empty scale: whenever \<open>digitize\<close> finds the edges that
  \<open>linspace\<close> computed non-decreasing, \<open>freqMap\<close> returns one pitch per sample and
  the bin indices of successive samples never decrease.
\<close>

theorem freqMap_increasing_series:
  assumes inc: "sorted_wrt (<) xs" and fr: "freq \<noteq> []"
    and lin: "linspace (series_min (map Fin xs)) (series_max (map Fin xs))
                (int (length freq) - 1) = Inr bins"
    and mono: "check_array_monotonic bins = 1"
  shows "\<exists>idxs. freqMap_digitized lg (map Fin xs) (length freq) False = Inr idxs
           \<and> length idxs = length xs \<and> sorted idxs
           \<and> freqMap lg (map Fin xs) freq False invert offset = Inr (map (\<lambda>i. freq ! i) idxs)"
proof -
  let ?idxs = "map (\<lambda>x. searchsorted_right bins (Fin x)) xs"
  have dg: "digitize (map Fin xs) bins = Inr ?idxs"
    using mono by (simp add: digitize_def comp_def)
  have fd: "freqMap_digitized lg (map Fin xs) (length freq) False = Inr ?idxs"
    unfolding freqMap_digitized_def by (simp only: if_False lin sum.case dg)
  have "sorted xs" using inc by (rule strict_sorted_imp_sorted)
  then have srt: "sorted ?idxs" by (rule sorted_map_mono) (rule searchsorted_right_mono)
  have m0: "check_array_monotonic bins \<noteq> 0" using mono by simp
  from freqMap_from_digitize[OF fr lin m0, of "map Fin xs"]
  have lk: "lookup freq ?idxs = Inr (map (\<lambda>i. freq ! i) ?idxs)" using dg by auto
  have "freqMap lg (map Fin xs) freq False invert offset = Inr (map (\<lambda>i. freq ! i) ?idxs)"
    unfolding freqMap_def fd by (simp only: sum.case lk)
  then show ?thesis using fd srt by (intro exI[of _ ?idxs]) simp
qed

text \<open>The theorem at the series \<open>[1, 2, 3]\<close> and the scale \<open>[60, 64, 67]\<close>.\<close>

theorem freqMap_increasing_series_witness:
  "sorted_wrt (<) [1, 2, 3 :: real] \<and> [60, 64, 67 :: int] \<noteq> []
   \<and> linspace (series_min (map Fin [1, 2, 3])) (series_max (map Fin [1, 2, 3]))
        (int (length [60, 64, 67 :: int]) - 1) = Inr [Fin 1, Fin 3]
   \<and> check_array_monotonic [Fin 1, Fin 3] = 1
   \<and> (\<exists>idxs. freqMap_digitized log_rn (map Fin [1, 2, 3]) (length [60, 64, 67 :: int]) False = Inr idxs
           \<and> length idxs = length [1, 2, 3 :: real] \<and> sorted idxs
           \<and> freqMap log_rn (map Fin [1, 2, 3]) [60, 64, 67 :: int] False False 0
                 = Inr (map (\<lambda>i. [60, 64, 67] ! i) idxs))"
proof -
  have a: "sorted_wrt (<) [1, 2, 3 :: real]" by simp
  have b: "[60, 64, 67 :: int] \<noteq> []" by simp
  have c: "linspace (series_min (map Fin [1, 2, 3])) (series_max (map Fin [1, 2, 3]))
        (int (length [60, 64, 67 :: int]) - 1) = Inr [Fin 1, Fin 3]"
    by (simp add: linspace_def series_min_def series_max_def fsub_def upt2 fl_eval)
  have d: "check_array_monotonic [Fin 1, Fin 3] = 1"
    by (simp add: check_array_monotonic_def)
  show ?thesis
    using a b c d freqMap_increasing_series[OF a b c d, of log_rn False 0] by blast
qed

section \<open>Quantizer: length and membership\<close>

lemma ilog2_small:
  "0 < x \<Longrightarrow> x < pow2 (- int k) \<Longrightarrow> k \<le> n \<Longrightarrow> ilog2 n x \<le> - int k"
proof (induction n arbitrary: x k)
  case 0
  then show ?case by simp
next
  case (Suc n)
  show ?case
  proof (cases k)
    case 0
    then have "x < 2" using Suc.prems(2) by (simp add: pow2_def)
    then show ?thesis using ilog2_le_0[of x "Suc n"] 0 by simp
  next
    case (Suc j)
    have h: "pow2 (- int j) = 2 * pow2 (- int k)"
      using pow2_add1[of "- int k"] Suc by simp
    have "pow2 (- int j) \<le> pow2 0" by (rule pow2_mono) simp
    then have "pow2 (- int j) \<le> 1" by (simp add: pow2_def)
    then have x1: "x < 1" using h Suc.prems(2) pow2_pos[of "- int k"] by linarith
    have "ilog2 n (2 * x) \<le> - int j"
      using Suc.prems Suc h by (intro Suc.IH) simp_all
    then show ?thesis using x1 Suc by simp
  qed
qed

lemma rd_subnormal:
  assumes "0 < x" "x < pow2 (- 1022)"
  shows "rd x = real_of_int (rne (x / pow2 (- 1074))) * pow2 (- 1074)"
proof -
  have "ilog2 2200 \<bar>x\<bar> \<le> - int 1022"
    using assms by (intro ilog2_small) simp_all
  then have "max (ilog2 2200 \<bar>x\<bar>) (- 1022) = - 1022" by simp
  then show ?thesis using assms(1) by (simp add: rd_def Let_def)
qed

lemma to_float_subnormal:
  assumes "0 < q" "q \<le> 8"
  shows "to_float (q * pow2 (- 1074)) = Fin (real_of_int (rne q) * pow2 (- 1074))"
proof -
  define u where "u = pow2 (- 1074)"
  have upos: "0 < u" by (simp add: u_def pow2_pos)
  have "pow2 (- 1074 + 52) = pow2 (- 1074) * 2 ^ 52"
    using pow2_sub52[of "- 1022"] by simp
  then have big: "pow2 (- 1022) = u * 2 ^ 52" by (simp add: u_def)
  have "q * u \<le> 8 * u" using assms(2) upos by simp
  also have "\<dots> < u * 2 ^ 52" using upos by simp
  finally have lt: "q * u < pow2 (- 1022)" using big by simp
  have pos: "0 < q * u" using assms(1) upos by simp
  have r: "rd (q * u) = real_of_int (rne q) * u"
    using rd_subnormal[OF pos lt] upos by (simp add: u_def)
  have q0: "0 \<le> q" using assms(1) by simp
  have lo: "0 \<le> real_of_int (rne q) * u" using rne_bounds(1)[OF q0] upos by simp
  have "real_of_int (rne q) * u \<le> (q + 1) * u"
    using rne_bounds(2)[OF q0] upos by (intro mult_right_mono) simp_all
  also have "\<dots> \<le> 9 * u" using assms(2) upos by simp
  also have "\<dots> \<le> 9 * 1" using pow2_le_1[of "- 1074"] by (intro mult_left_mono) (simp_all add: u_def)
  finally have hi: "real_of_int (rne q) * u \<le> 9" by simp
  show ?thesis
    using lo hi max_double_ge_9 r by (simp add: to_float_def Let_def u_def)
qed

lemma upt6: "[0..<6] = [0, 1, 2, 3, 4, 5]" by (simp add: upt_rec)

lemma rne_small: "rne 1 = 1" "rne 2 = 2" "rne 3 = 3" "rne 4 = 4" "rne 5 = 5" "rne (3 / 5) = 1"
  by (simp_all add: rne_def)

text \<open>
  Claim C7 as the specification states it fails for a range of subnormal size: for
  the series of 0 and three times the smallest positive binary64 value (written
  1.5e-323) on linear edges and a scale of seven entries the step 3/5 of that unit
  rounds up to one unit, the edge before the last is four units and the last edge is
  the maximum, three units; \<open>digitize\<close> rejects the edges and \<open>freqMap\<close> raises
  ValueError instead of returning a sequence.
\<close>

theorem freqMap_subnormal_counterexample:
  "freqMap log_rn [Fin 0, Fin (3 * pow2 (- 1074))] [60, 62, 64, 65, 67, 69, 71 :: int]
     False False 0 = Inl ValueError"
proof -
  define u where "u = pow2 (- 1074)"
  have upos: "0 < u" by (simp add: u_def pow2_pos)
  have t: "to_float u = Fin u" "to_float (2 * u) = Fin (2 * u)" "to_float (3 * u) = Fin (3 * u)"
    "to_float (4 * u) = Fin (4 * u)" "to_float (5 * u) = Fin (5 * u)"
    "to_float (3 * u / 5) = Fin u"
    using to_float_subnormal[of 1] to_float_subnormal[of 2] to_float_subnormal[of 3]
      to_float_subnormal[of 4] to_float_subnormal[of 5] to_float_subnormal[of "3 / 5"]
    by (simp_all add: u_def rne_small)
  have lin: "linspace (Fin 0) (Fin (3 * u)) 6
               = Inr [Fin 0, Fin u, Fin (2 * u), Fin (3 * u), Fin (4 * u), Fin (3 * u)]"
    using upos by (simp add: linspace_def Let_def fsub_def upt6 t to_float_0)
  have chk: "check_array_monotonic [Fin 0, Fin u, Fin (2 * u), Fin (3 * u), Fin (4 * u), Fin (3 * u)] = 0"
    using upos by (simp add: check_array_monotonic_def)
  have mm: "series_min [Fin 0, Fin (3 * u)] = Fin 0" "series_max [Fin 0, Fin (3 * u)] = Fin (3 * u)"
    using upos by (simp_all add: series_min_def series_max_def)
  show ?thesis
    unfolding u_def[symmetric]
    by (simp add: freqMap_def freqMap_digitized_def mm lin digitize_def chk)
qed

text \<open>
  Claim C7, as the code has it.  For every series and every non-empty scale: whenever
  \<open>digitize\<close> finds the edges that \<open>linspace\<close> computed monotonic, \<open>freqMap\<close>
  returns a sequence of the length of the series whose element at each position is
  the scale entry at the bin index of the sample at that position, an index computed
  from that sample and the edges alone; every element is a member of the scale as
  passed.
\<close>

theorem freqMap_members:
  assumes fr: "freq \<noteq> []"
    and lin: "linspace (if use_log then np_log lg (series_min data) else series_min data)
                (if use_log then np_log lg (series_max data) else series_max data)
                (int (length freq) - 1) = Inr bins"
    and mono: "check_array_monotonic bins \<noteq> 0"
  shows "\<exists>idxs ys. freqMap_digitized lg data (length freq) use_log = Inr idxs
           \<and> freqMap lg data freq use_log invert offset = Inr ys
           \<and> length idxs = length data \<and> length ys = length data
           \<and> ys = map (\<lambda>i. freq ! i) idxs
           \<and> set ys \<subseteq> set freq
           \<and> idxs = map (\<lambda>v. if check_array_monotonic bins = - 1
                                then length bins - searchsorted_right (rev bins) v
                                else searchsorted_right bins v)
                      (if use_log then map (np_log lg) data else data)"
proof -
  let ?keys = "if use_log then map (np_log lg) data else data"
  let ?idxs = "map (\<lambda>v. if check_array_monotonic bins = - 1
                                then length bins - searchsorted_right (rev bins) v
                                else searchsorted_right bins v) ?keys"
  have dg: "digitize ?keys bins = Inr ?idxs"
    using mono by (simp add: digitize_def Let_def)
  have fd: "freqMap_digitized lg data (length freq) use_log = Inr ?idxs"
  proof (cases use_log)
    case True
    then show ?thesis using lin dg by (simp add: freqMap_digitized_def)
  next
    case False
    then show ?thesis using lin dg by (simp add: freqMap_digitized_def)
  qed
  from freqMap_from_digitize[OF fr lin mono, of ?keys]
  have lt: "\<forall>i \<in> set ?idxs. i < length freq"
    and lk: "lookup freq ?idxs = Inr (map (\<lambda>i. freq ! i) ?idxs)"
    using dg by auto
  have fm: "freqMap lg data freq use_log invert offset = Inr (map (\<lambda>i. freq ! i) ?idxs)"
    unfolding freqMap_def fd by (simp only: sum.case lk)
  have len: "length ?idxs = length data" by simp
  have sub: "set (map (\<lambda>i. freq ! i) ?idxs) \<subseteq> set freq" using lt by auto
  show ?thesis
    using fd fm len sub by (intro exI[of _ ?idxs] exI[of _ "map (\<lambda>i. freq ! i) ?idxs"]) simp
qed

text \<open>The theorem at the series \<open>[1, 2, 3]\<close> and the scale \<open>[60, 64, 67]\<close> on linear edges.\<close>

theorem freqMap_members_witness:
  "[60, 64, 67 :: int] \<noteq> []
   \<and> linspace (if False then np_log log_rn (series_min [Fin 1, Fin 2, Fin 3])
                else series_min [Fin 1, Fin 2, Fin 3])
               (if False then np_log log_rn (series_max [Fin 1, Fin 2, Fin 3])
                else series_max [Fin 1, Fin 2, Fin 3])
               (int (length [60, 64, 67 :: int]) - 1) = Inr [Fin 1, Fin 3]
   \<and> check_array_monotonic [Fin 1, Fin 3] \<noteq> 0
   \<and> (\<exists>idxs ys. freqMap_digitized log_rn [Fin 1, Fin 2, Fin 3] (length [60, 64, 67 :: int]) False
                     = Inr idxs
           \<and> freqMap log_rn [Fin 1, Fin 2, Fin 3] [60, 64, 67 :: int] False False 0 = Inr ys
           \<and> length idxs = length [Fin 1, Fin 2, Fin 3] \<and> length ys = length [Fin 1, Fin 2, Fin 3]
           \<and> ys = map (\<lambda>i. [60, 64, 67] ! i) idxs
           \<and> set ys \<subseteq> set [60, 64, 67]
           \<and> idxs = map (\<lambda>v. if check_array_monotonic [Fin 1, Fin 3] = - 1
                                then length [Fin 1, Fin 3] - searchsorted_right (rev [Fin 1, Fin 3]) v
                                else searchsorted_right [Fin 1, Fin 3] v)
                      (if False then map (np_log log_rn) [Fin 1, Fin 2, Fin 3]
                       else [Fin 1, Fin 2, Fin 3]))"
proof -
  have b: "[60, 64, 67 :: int] \<noteq> []" by simp
  have c: "linspace (if False then np_log log_rn (series_min [Fin 1, Fin 2, Fin 3])
                else series_min [Fin 1, Fin 2, Fin 3])
               (if False then np_log log_rn (series_max [Fin 1, Fin 2, Fin 3])
                else series_max [Fin 1, Fin 2, Fin 3])
               (int (length [60, 64, 67 :: int]) - 1) = Inr [Fin 1, Fin 3]"
    by (simp add: linspace_def series_min_def series_max_def fsub_def upt2 fl_eval)
  have d: "check_array_monotonic [Fin 1, Fin 3] \<noteq> 0"
    by (simp add: check_array_monotonic_def)
  show ?thesis
    using b c d freqMap_members[OF b c d, of False 0] by blast
qed

end
